theory Spec2Isabelle
  imports Complex_Main "HOL-Library.Log_Nat"
begin

section \<open>Python values used by midi\_transcriber.py\<close>

text \<open>
  Python integers are unbounded and are modelled by \<open>int\<close>.  The exceptions the
  arithmetic of the program can raise are values of \<open>py_error\<close>; \<open>DecodeError\<close>
  stands for whatever \<open>mido.MidiFile\<close> raises on a file it cannot read.
\<close>

datatype py_error = ZeroDivisionError | OverflowError | ValueError | DecodeError

text \<open>
  A Python \<open>float\<close> is an IEEE 754 binary64 number.  The finite ones are rationals
  (the sign of zero is never observed by the program, every float goes through
  \<open>int\<close> or \<open>round\<close>), the others are the two infinities and NaN.
\<close>

datatype pyfloat = Fin rat | PosInf | NegInf | NaN

definition pow2 :: "int \<Rightarrow> rat" where
  "pow2 e = (if 0 \<le> e then 2 ^ nat e else 1 / 2 ^ nat (- e))"

text \<open>\<open>ilog2 q\<close> is the binary exponent of a positive rational: \<open>2^e \<le> q < 2^(e+1)\<close>.\<close>

definition ilog2 :: "rat \<Rightarrow> int" where
  "ilog2 q = (let d = bitlen (fst (quotient_of q)) - bitlen (snd (quotient_of q))
              in if pow2 d \<le> q then d else d - 1)"

text \<open>Rounding to the nearest integer, ties to the even one.\<close>

definition round_half_even :: "rat \<Rightarrow> int" where
  "round_half_even q =
     (let f = \<lfloor>q\<rfloor>; d = q - of_int f
      in if d < 1 / 2 then f
         else if 1 / 2 < d then f + 1
         else if even f then f else f + 1)"

text \<open>
  Rounding a rational to binary64: 53 significant bits, the least exponent
  \<open>-1022\<close> (below it the numbers are subnormal, spaced \<open>2^-1074\<close> apart), ties to
  even.  A result of magnitude \<open>2^1024\<close> or more does not fit.
\<close>

definition round_double :: "rat \<Rightarrow> rat" where
  "round_double q =
     (if q = 0 then 0
      else let e = max (ilog2 \<bar>q\<bar>) (- 1022); u = pow2 (e - 52)
           in of_int (round_half_even (q / u)) * u)"

definition dbl_overflow :: "rat \<Rightarrow> bool" where
  "dbl_overflow r = (pow2 1024 \<le> \<bar>r\<bar>)"

text \<open>\<open>a / b\<close> on two Python ints: the correctly rounded quotient.\<close>

definition py_truediv :: "int \<Rightarrow> int \<Rightarrow> py_error + pyfloat" where
  "py_truediv a b =
     (if b = 0 then Inl ZeroDivisionError
      else let r = round_double (of_int a / of_int b)
           in if dbl_overflow r then Inl OverflowError else Inr (Fin r))"

text \<open>\<open>int(x)\<close> on a float: truncation towards zero.\<close>

fun py_int :: "pyfloat \<Rightarrow> py_error + int" where
  "py_int (Fin q) = Inr (if 0 \<le> q then \<lfloor>q\<rfloor> else \<lceil>q\<rceil>)"
| "py_int PosInf = Inl OverflowError"
| "py_int NegInf = Inl OverflowError"
| "py_int NaN = Inl ValueError"

text \<open>\<open>float(i)\<close>, the conversion \<open>int * float\<close> applies to its left operand.\<close>

definition py_float_of_int :: "int \<Rightarrow> py_error + pyfloat" where
  "py_float_of_int i =
     (let r = round_double (of_int i)
      in if dbl_overflow r then Inl OverflowError else Inr (Fin r))"

text \<open>The product of two floats.\<close>

definition fin_or_inf :: "rat \<Rightarrow> pyfloat" where
  "fin_or_inf r = (if dbl_overflow r then (if 0 < r then PosInf else NegInf) else Fin r)"

fun py_fmul :: "pyfloat \<Rightarrow> pyfloat \<Rightarrow> pyfloat" where
  "py_fmul NaN y = NaN"
| "py_fmul x NaN = NaN"
| "py_fmul (Fin a) (Fin b) = fin_or_inf (round_double (a * b))"
| "py_fmul (Fin a) PosInf = (if a = 0 then NaN else if 0 < a then PosInf else NegInf)"
| "py_fmul (Fin a) NegInf = (if a = 0 then NaN else if 0 < a then NegInf else PosInf)"
| "py_fmul PosInf (Fin b) = (if b = 0 then NaN else if 0 < b then PosInf else NegInf)"
| "py_fmul NegInf (Fin b) = (if b = 0 then NaN else if 0 < b then NegInf else PosInf)"
| "py_fmul PosInf PosInf = PosInf"
| "py_fmul PosInf NegInf = NegInf"
| "py_fmul NegInf PosInf = NegInf"
| "py_fmul NegInf NegInf = PosInf"

text \<open>\<open>round(x)\<close> on a float, with no digits: the nearest int, ties to even.\<close>

fun py_round :: "pyfloat \<Rightarrow> py_error + int" where
  "py_round (Fin q) = Inr (round_half_even q)"
| "py_round PosInf = Inl OverflowError"
| "py_round NegInf = Inl OverflowError"
| "py_round NaN = Inl ValueError"

section \<open>MIDI parsing: transcribe\_midi\<close>

text \<open>
  What \<open>mido\<close> hands over: a file has \<open>ticks_per_beat\<close> and a list of tracks, a
  track is a list of messages, every message has a delta \<open>time\<close> in ticks.  The
  program looks at three message types; all others only advance the tick count.
\<close>

datatype msg =
    SetTempo int int        \<comment> \<open>time, tempo\<close>
  | NoteOnMsg int int int   \<comment> \<open>time, note, velocity\<close>
  | NoteOffMsg int int int  \<comment> \<open>time, note, velocity\<close>
  | OtherMsg int            \<comment> \<open>time\<close>

fun msg_time :: "msg \<Rightarrow> int" where
  "msg_time (SetTempo t tp) = t"
| "msg_time (NoteOnMsg t n v) = t"
| "msg_time (NoteOffMsg t n v) = t"
| "msg_time (OtherMsg t) = t"

record midifile =
  ticks_per_beat :: int
  tracks :: "msg list list"

type_synonym event = "int \<times> int \<times> string"  \<comment> \<open>note, timestamp in ms, "ON"/"OFF"\<close>

definition default_tempo :: int where
  "default_tempo = 500000"

text \<open>Line 149: \<open>int((cur_ticks * tempo) / (ticks_per_beat * 1000))\<close>.\<close>

definition time_ms_of :: "int \<Rightarrow> int \<Rightarrow> int \<Rightarrow> py_error + int" where
  "time_ms_of cur_ticks tempo tpb =
     (case py_truediv (cur_ticks * tempo) (tpb * 1000) of
        Inl e \<Rightarrow> Inl e
      | Inr x \<Rightarrow> py_int x)"

text \<open>
  One iteration of the inner loop (lines 148 to 156) on the state
  \<open>(cur_ticks, tempo, note_events)\<close>.
\<close>

fun msg_step :: "int \<Rightarrow> int \<times> int \<times> event list \<Rightarrow> msg \<Rightarrow> py_error + int \<times> int \<times> event list" where
  "msg_step tpb (cur_ticks, tempo, note_events) m =
     (let cur_ticks = cur_ticks + msg_time m
      in case time_ms_of cur_ticks tempo tpb of
           Inl e \<Rightarrow> Inl e
         | Inr time_ms \<Rightarrow>
             (case m of
                SetTempo t tp \<Rightarrow> Inr (cur_ticks, tp, note_events)
              | NoteOnMsg t n v \<Rightarrow>
                  if 0 < v then Inr (cur_ticks, tempo, note_events @ [(n, time_ms, ''ON'')])
                  else if v = 0 then Inr (cur_ticks, tempo, note_events @ [(n, time_ms, ''OFF'')])
                  else Inr (cur_ticks, tempo, note_events)
              | NoteOffMsg t n v \<Rightarrow> Inr (cur_ticks, tempo, note_events @ [(n, time_ms, ''OFF'')])
              | OtherMsg t \<Rightarrow> Inr (cur_ticks, tempo, note_events)))"

text \<open>The inner loop over the messages of one track.\<close>

fun track_loop :: "int \<Rightarrow> int \<times> int \<times> event list \<Rightarrow> msg list \<Rightarrow> py_error + int \<times> int \<times> event list" where
  "track_loop tpb st [] = Inr st"
| "track_loop tpb st (m # ms) =
     (case msg_step tpb st m of
        Inl e \<Rightarrow> Inl e
      | Inr st' \<Rightarrow> track_loop tpb st' ms)"

text \<open>
  The outer loop (lines 144 to 156): every track starts again at tick 0 and at
  the default tempo, and appends to the same \<open>note_events\<close>.
\<close>

fun tracks_loop :: "int \<Rightarrow> event list \<Rightarrow> msg list list \<Rightarrow> py_error + event list" where
  "tracks_loop tpb note_events [] = Inr note_events"
| "tracks_loop tpb note_events (track # rest) =
     (case track_loop tpb (0, default_tempo, note_events) track of
        Inl e \<Rightarrow> Inl e
      | Inr (cur_ticks, tempo, note_events') \<Rightarrow> tracks_loop tpb note_events' rest)"

text \<open>
  \<open>transcribe_midi\<close>: the first two tracks, then a stable sort on the timestamp.
  Any exception, from the decoder (\<open>Inl\<close> as the argument) or from the
  arithmetic, ends in the \<open>except\<close> branch, which returns the empty list.
\<close>

definition transcribe_midi :: "py_error + midifile \<Rightarrow> event list" where
  "transcribe_midi decoded =
     (case decoded of
        Inl e \<Rightarrow> []
      | Inr mid \<Rightarrow>
          (case tracks_loop (ticks_per_beat mid) [] (take 2 (tracks mid)) of
             Inl e \<Rightarrow> []
           | Inr note_events \<Rightarrow> sort_key (\<lambda>x. fst (snd x)) note_events))"

text \<open>
  Written from the words of the specification, for comparison with
  \<open>msg_step\<close>: a tempo change takes effect for the ticks after it and never for
  those before.  The elapsed time is kept as the sum of delta ticks times the
  tempo in force when they elapsed; the result lists the time in milliseconds
  of every message of the track.
\<close>

fun spec_nonretroactive_times :: "int \<Rightarrow> int \<times> int \<Rightarrow> msg list \<Rightarrow> int list" where
  "spec_nonretroactive_times tpb (elapsed, tempo) [] = []"
| "spec_nonretroactive_times tpb (elapsed, tempo) (m # ms) =
     (let elapsed' = elapsed + msg_time m * tempo
      in (elapsed' div (tpb * 1000))
         # spec_nonretroactive_times tpb
             (elapsed', case m of SetTempo t tp \<Rightarrow> tp | _ \<Rightarrow> tempo) ms)"

section \<open>Pairing ON/OFF events: convert\_to\_midi\_notes\<close>

record MidiNote =
  index :: int
  midiNoteNumber :: int
  timeMSec :: int
  noteDuration :: int

text \<open>
  The state of the loop of \<open>convert_to_midi_notes\<close>: the list \<open>out\<close>, the
  dictionary \<open>active\<close> (note to start time) and the counter \<open>idx\<close>.
\<close>

type_synonym pair_state = "MidiNote list \<times> (int \<rightharpoonup> int) \<times> int"

definition limit_reached :: "int option \<Rightarrow> MidiNote list \<Rightarrow> bool" where
  "limit_reached limit out =
     (case limit of None \<Rightarrow> False | Some l \<Rightarrow> l \<le> int (length out))"

text \<open>
  The loop body (lines 175 to 185).  The second component of the result tells
  whether the body ended in \<open>break\<close>.
\<close>

fun pair_step :: "int option \<Rightarrow> pair_state \<Rightarrow> event \<Rightarrow> pair_state \<times> bool" where
  "pair_step limit (out, active, idx) (note_num, t_ms, state) =
     (if state = ''ON'' then ((out, active(note_num \<mapsto> t_ms), idx), False)
      else if state = ''OFF'' then
        (case active note_num of
           None \<Rightarrow> ((out, active, idx), False)
         | Some start \<Rightarrow>
             (let out' = out @ [\<lparr>index = idx, midiNoteNumber = note_num,
                                 timeMSec = start, noteDuration = t_ms - start\<rparr>]
              in ((out', active(note_num := None), idx + 1), limit_reached limit out')))
      else ((out, active, idx), False))"

fun pair_loop :: "int option \<Rightarrow> pair_state \<Rightarrow> event list \<Rightarrow> pair_state" where
  "pair_loop limit st [] = st"
| "pair_loop limit st (ev # evs) =
     (case pair_step limit st ev of
        (st', brk) \<Rightarrow> if brk then st' else pair_loop limit st' evs)"

text \<open>Lines 187 to 190, on a list of freshly built notes.\<close>

definition renormalize :: "MidiNote list \<Rightarrow> MidiNote list" where
  "renormalize out =
     (if out \<noteq> [] then
        (let t0 = min_list (map timeMSec out)
         in map (\<lambda>n. n\<lparr>timeMSec := timeMSec n - t0\<rparr>) out)
      else out)"

definition paired :: "event list \<Rightarrow> int option \<Rightarrow> MidiNote list" where
  "paired events limit = fst (pair_loop limit ([], Map.empty, 0) events)"

definition convert_to_midi_notes :: "event list \<Rightarrow> int option \<Rightarrow> MidiNote list" where
  "convert_to_midi_notes events limit = renormalize (paired events limit)"

section \<open>The transform pipeline: apply\_transforms\<close>

record TransformOptions =
  time_shift_ms :: int
  time_scale :: pyfloat
  min_duration_ms :: int

text \<open>
  \<open>apply_transforms\<close> copies every note and then updates the copies in place, and
  a modifier receives a note object and returns one.  Objects are therefore kept
  in a store: the list of all \<open>MidiNote\<close> objects in order of creation, a
  reference being the position of its object.
\<close>

type_synonym ref = nat
type_synonym heap = "MidiNote list"
type_synonym modifier = "ref \<Rightarrow> heap \<Rightarrow> ref \<times> heap"

definition new_note :: "heap \<Rightarrow> MidiNote \<Rightarrow> ref \<times> heap" where
  "new_note h v = (length h, h @ [v])"

text \<open>\<open>int(round(i * s))\<close> for an int \<open>i\<close> and a float \<open>s\<close>.\<close>

definition scale_round :: "int \<Rightarrow> pyfloat \<Rightarrow> py_error + int" where
  "scale_round i s =
     (case py_float_of_int i of
        Inl e \<Rightarrow> Inl e
      | Inr x \<Rightarrow> py_round (py_fmul x s))"

text \<open>Lines 107 to 109.\<close>

definition scale_note :: "TransformOptions \<Rightarrow> MidiNote \<Rightarrow> py_error + MidiNote" where
  "scale_note opts m =
     (if time_scale opts \<noteq> Fin 1 then
        (case scale_round (timeMSec m) (time_scale opts) of
           Inl e \<Rightarrow> Inl e
         | Inr t \<Rightarrow>
             (case scale_round (noteDuration m) (time_scale opts) of
                Inl e \<Rightarrow> Inl e
              | Inr d \<Rightarrow> Inr (m\<lparr>timeMSec := t, noteDuration := d\<rparr>)))
      else Inr m)"

text \<open>Lines 111 and 112.\<close>

definition shift_note :: "TransformOptions \<Rightarrow> MidiNote \<Rightarrow> MidiNote" where
  "shift_note opts m =
     (if time_shift_ms opts \<noteq> 0 then m\<lparr>timeMSec := timeMSec m + time_shift_ms opts\<rparr> else m)"

text \<open>Lines 114 and 115.\<close>

definition floor_note :: "TransformOptions \<Rightarrow> MidiNote \<Rightarrow> MidiNote" where
  "floor_note opts m =
     (if min_duration_ms opts \<noteq> 0 \<and> noteDuration m < min_duration_ms opts
      then m\<lparr>noteDuration := min_duration_ms opts\<rparr> else m)"

text \<open>The three built-in steps on the working copy, before the modifiers.\<close>

definition transform_fields :: "TransformOptions \<Rightarrow> MidiNote \<Rightarrow> py_error + MidiNote" where
  "transform_fields opts m =
     (case scale_note opts m of
        Inl e \<Rightarrow> Inl e
      | Inr m1 \<Rightarrow> Inr (floor_note opts (shift_note opts m1)))"

text \<open>Lines 117 and 118: \<open>for mod in extra_modifiers: m = mod(m)\<close>.\<close>

fun apply_mods :: "modifier list \<Rightarrow> ref \<Rightarrow> heap \<Rightarrow> ref \<times> heap" where
  "apply_mods [] m h = (m, h)"
| "apply_mods (f # mods) m h = (case f m h of (m', h') \<Rightarrow> apply_mods mods m' h')"

text \<open>The loop of lines 104 to 120 over the references of the input notes.\<close>

fun transform_loop ::
  "TransformOptions \<Rightarrow> modifier list \<Rightarrow> ref list \<Rightarrow> ref list \<times> heap \<Rightarrow> py_error + ref list \<times> heap" where
  "transform_loop opts mods [] (out, h) = Inr (out, h)"
| "transform_loop opts mods (n # ns) (out, h) =
     (case new_note h (h ! n) of
        (m, h1) \<Rightarrow>
          (case transform_fields opts (h1 ! m) of
             Inl e \<Rightarrow> Inl e
           | Inr v \<Rightarrow>
               (case apply_mods mods m (h1[m := v]) of
                  (m', h2) \<Rightarrow> transform_loop opts mods ns (out @ [m'], h2))))"

text \<open>Lines 124 and 125: \<open>for e in out: e.timeMSec -= t0\<close>.\<close>

fun subtract_all :: "int \<Rightarrow> ref list \<Rightarrow> heap \<Rightarrow> heap" where
  "subtract_all t0 [] h = h"
| "subtract_all t0 (e # es) h =
     subtract_all t0 es (h[e := (h ! e)\<lparr>timeMSec := timeMSec (h ! e) - t0\<rparr>])"

text \<open>Lines 122 to 125.\<close>

definition renormalize_refs :: "ref list \<Rightarrow> heap \<Rightarrow> heap" where
  "renormalize_refs out h =
     (if out \<noteq> [] then subtract_all (min_list (map (\<lambda>e. timeMSec (h ! e)) out)) out h
      else h)"

text \<open>
  \<open>apply_transforms\<close> in a store \<open>h\<close>: \<open>notes\<close> are the references of the input
  list; the result is the list of references \<open>out\<close> and the store after the call.
\<close>

definition apply_transforms ::
  "heap \<Rightarrow> ref list \<Rightarrow> TransformOptions \<Rightarrow> modifier list \<Rightarrow> py_error + ref list \<times> heap" where
  "apply_transforms h notes opts extra_modifiers =
     (case transform_loop opts extra_modifiers notes ([], h) of
        Inl e \<Rightarrow> Inl e
      | Inr (out, h') \<Rightarrow> Inr (out, renormalize_refs out h'))"

text \<open>The notes a list of references denotes in a store.\<close>

definition deref :: "heap \<Rightarrow> ref list \<Rightarrow> MidiNote list" where
  "deref h rs = map ((!) h) rs"

section \<open>The modifiers built by main\<close>

definition NOTE_MIN :: int where "NOTE_MIN = 53"
definition NOTE_MAX :: int where "NOTE_MAX = 79"

text \<open>Lines 250 to 255: the closure \<open>_mod\<close> updates its argument and returns it.\<close>

definition make_transposer :: "int \<Rightarrow> modifier" where
  "make_transposer semitones n h =
     (n, h[n := (h ! n)\<lparr>midiNoteNumber := max 0 (min 127 (midiNoteNumber (h ! n) + semitones))\<rparr>])"

text \<open>Lines 260 to 262.\<close>

definition clamp_mod :: modifier where
  "clamp_mod n h =
     (n, h[n := (h ! n)\<lparr>midiNoteNumber := max NOTE_MIN (min NOTE_MAX (midiNoteNumber (h ! n)))\<rparr>])"

text \<open>Lines 247 to 263: the list \<open>extra_mods\<close> for the options \<open>--transpose\<close> and \<open>--clamp\<close>.\<close>

definition extra_mods :: "int \<Rightarrow> bool \<Rightarrow> modifier list" where
  "extra_mods semitones clamp =
     (if semitones \<noteq> 0 then [make_transposer semitones] else []) @
     (if clamp then [clamp_mod] else [])"

text \<open>
  The note that comes back when a list of modifiers is run on one note object
  \<open>n\<close>, alone in a store of its own.
\<close>

definition run_mods :: "modifier list \<Rightarrow> MidiNote \<Rightarrow> MidiNote" where
  "run_mods mods n = (case apply_mods mods 0 [n] of (r, h) \<Rightarrow> h ! r)"

definition note_of_pitch :: "int \<Rightarrow> MidiNote" where
  "note_of_pitch p = \<lparr>index = 0, midiNoteNumber = p, timeMSec = 0, noteDuration = 0\<rparr>"

section \<open>Auxiliary notions for the proofs\<close>

text \<open>The spacing of the doubles around a rational \<open>q\<close>.\<close>

definition ulp_of :: "rat \<Rightarrow> rat" where
  "ulp_of q = pow2 (max (ilog2 \<bar>q\<bar>) (- 1022) - 52)"

text \<open>
  A modifier is well behaved when, called on a note of the store, it returns
  that note or a newly created one, and changes no other note that existed
  before the call.  The closures built by main are of this kind.
\<close>

definition well_behaved :: "modifier \<Rightarrow> bool" where
  "well_behaved f =
     (\<forall>r h. r < length h \<longrightarrow>
        length h \<le> length (snd (f r h)) \<and> fst (f r h) < length (snd (f r h))
        \<and> (fst (f r h) = r \<or> length h \<le> fst (f r h))
        \<and> (\<forall>i<length h. i \<noteq> r \<longrightarrow> snd (f r h) ! i = h ! i))"

text \<open>
  A modifier that is not: the closure \<open>lambda m: notes[0]\<close>, which returns the
  first input note whatever it is given.
\<close>

definition return_first :: modifier where
  "return_first m h = (0, h)"

text \<open>Notes whose times convert to a float without rounding.\<close>

definition small_note :: "MidiNote \<Rightarrow> bool" where
  "small_note m = (\<bar>timeMSec m\<bar> < 2 ^ 53 \<and> \<bar>noteDuration m\<bar> < 2 ^ 53)"

text \<open>
  The invariant of the pairing loop on events sorted by time: the notes built
  so far have non-negative durations and consecutive indices, and no active
  start time is later than an event still to come.
\<close>

definition pair_inv :: "pair_state \<Rightarrow> bool" where
  "pair_inv st = (case st of (out, active, idx) \<Rightarrow>
     list_all (\<lambda>n. 0 \<le> noteDuration n) out
     \<and> map index out = map int [0..<length out]
     \<and> idx = int (length out))"

definition starts_before :: "(int \<rightharpoonup> int) \<Rightarrow> event list \<Rightarrow> bool" where
  "starts_before active evs =
     (\<forall>p s. active p = Some s \<longrightarrow> list_all (\<lambda>e. s \<le> fst (snd e)) evs)"

section \<open>Facts about the float model\<close>

lemma pow2_powi: "pow2 e = power_int 2 e"
  by (simp add: pow2_def power_int_def power_inverse inverse_eq_divide power_one_over)

lemma pow2_pos: "0 < pow2 e"
  by (simp add: pow2_powi)

lemma pow2_add: "pow2 (a + b) = pow2 a * pow2 b"
  by (simp add: pow2_powi power_int_add)

lemma pow2_mono: "a \<le> b \<Longrightarrow> pow2 a \<le> pow2 b"
  by (simp add: pow2_powi power_int_increasing)

lemma pow2_strict_mono: "a < b \<Longrightarrow> pow2 a < pow2 b"
  by (simp add: pow2_powi power_int_strict_increasing)

lemma pow2_nat: "pow2 (int n) = 2 ^ n"
  by (simp add: pow2_def)

lemma pow2_0: "pow2 0 = 1"
  by (simp add: pow2_def)

lemma pow2_neg_int: "0 \<le> e \<Longrightarrow> pow2 (- e) * 2 ^ nat e = 1"
  using pow2_add [of "- e" e] by (simp add: pow2_def)

lemma bitlen_pow2_bounds:
  assumes "0 < a"
  shows "pow2 (bitlen a - 1) \<le> of_int a" and "of_int a < pow2 (bitlen a)"
proof -
  have ge1: "1 \<le> bitlen a"
    using assms bitlen_eq_zero_iff [of a] bitlen_nonneg [of a] by linarith
  have b: "2 ^ nat (bitlen a - 1) \<le> a" "a < 2 ^ nat (bitlen a)"
    using bitlen_bounds [OF assms] by auto
  have "(of_int (2 ^ nat (bitlen a - 1)) :: rat) \<le> of_int a"
    using b(1) by (simp only: of_int_le_iff)
  then show "pow2 (bitlen a - 1) \<le> of_int a"
    using ge1 by (simp add: pow2_def)
  have "(of_int a :: rat) < of_int (2 ^ nat (bitlen a))"
    using b(2) by (simp only: of_int_less_iff)
  then show "of_int a < pow2 (bitlen a)"
    using ge1 by (simp add: pow2_def)
qed

lemma ilog2_bounds:
  assumes "0 < q"
  shows "pow2 (ilog2 q) \<le> q" and "q < pow2 (ilog2 q + 1)"
proof -
  obtain a b where ab: "quotient_of q = (a, b)" by (cases "quotient_of q")
  have bpos: "0 < b" using ab by (rule quotient_of_denom_pos)
  have q: "q = of_int a / of_int b" using ab by (rule quotient_of_div)
  have apos: "0 < a" using assms bpos q by (simp add: zero_less_divide_iff)
  define d where "d = bitlen a - bitlen b"
  have lo: "pow2 (d - 1) \<le> q"
  proof -
    have "pow2 (d - 1) * of_int b \<le> pow2 (d - 1) * pow2 (bitlen b)"
      using bitlen_pow2_bounds(2) [OF bpos] pow2_pos [of "d - 1"] by simp
    also have "\<dots> = pow2 (bitlen a - 1)"
      by (simp add: d_def pow2_add [symmetric])
    also have "\<dots> \<le> of_int a" using bitlen_pow2_bounds(1) [OF apos] .
    finally show ?thesis using bpos by (simp add: q pos_le_divide_eq)
  qed
  have hi: "q < pow2 (d + 1)"
  proof -
    have "of_int a < pow2 (bitlen a)" using bitlen_pow2_bounds(2) [OF apos] .
    also have "\<dots> = pow2 (d + 1) * pow2 (bitlen b - 1)"
      by (simp add: d_def pow2_add [symmetric])
    also have "\<dots> \<le> pow2 (d + 1) * of_int b"
      using bitlen_pow2_bounds(1) [OF bpos] pow2_pos [of "d + 1"] by simp
    finally show ?thesis using bpos by (simp add: q pos_divide_less_eq)
  qed
  have il: "ilog2 q = (if pow2 d \<le> q then d else d - 1)"
    by (simp add: ilog2_def ab d_def)
  show "pow2 (ilog2 q) \<le> q" using lo by (simp add: il)
  show "q < pow2 (ilog2 q + 1)" using hi by (auto simp: il not_le)
qed

lemma ilog2_unique:
  assumes "pow2 e \<le> q" "q < pow2 (e + 1)"
  shows "ilog2 q = e"
proof -
  have qpos: "0 < q" using assms(1) pow2_pos [of e] by linarith
  have "pow2 (ilog2 q) < pow2 (e + 1)"
    using ilog2_bounds(1) [OF qpos] assms(2) by linarith
  then have a: "ilog2 q < e + 1"
    using pow2_mono [of "e + 1" "ilog2 q"] by (cases "ilog2 q < e + 1") auto
  have "pow2 e < pow2 (ilog2 q + 1)"
    using ilog2_bounds(2) [OF qpos] assms(1) by linarith
  then have b: "e < ilog2 q + 1"
    using pow2_mono [of "ilog2 q + 1" e] by (cases "e < ilog2 q + 1") auto
  show ?thesis using a b by linarith
qed

lemma round_half_even_of_int: "round_half_even (of_int n) = n"
  by (simp add: round_half_even_def)

lemma round_half_even_bounds:
  "\<lfloor>x\<rfloor> \<le> round_half_even x" "round_half_even x \<le> \<lfloor>x\<rfloor> + 1"
  by (simp_all add: round_half_even_def Let_def)

lemma round_half_even_ge: "of_int n \<le> x \<Longrightarrow> n \<le> round_half_even x"
  using round_half_even_bounds(1) [of x] le_floor_iff [of n x] by linarith

lemma round_half_even_le:
  assumes "x \<le> of_int n" shows "round_half_even x \<le> n"
proof (cases "x = of_int n")
  case True then show ?thesis by (simp add: round_half_even_of_int)
next
  case False
  then have "x < of_int n" using assms by simp
  then have "\<lfloor>x\<rfloor> < n" by (simp add: floor_less_iff)
  then show ?thesis using round_half_even_bounds(2) [of x] by linarith
qed

lemma round_half_even_near: "\<bar>of_int (round_half_even x) - x\<bar> \<le> 1 / 2"
proof -
  have "of_int \<lfloor>x\<rfloor> \<le> x" "x < of_int \<lfloor>x\<rfloor> + 1" by linarith+
  then show ?thesis
    by (auto simp: round_half_even_def Let_def abs_le_iff)
qed

lemma round_double_ulp:
  "q \<noteq> 0 \<Longrightarrow> round_double q = of_int (round_half_even (q / ulp_of q)) * ulp_of q"
  by (simp add: round_double_def ulp_of_def Let_def)

lemma ulp_pos: "0 < ulp_of q"
  by (simp add: ulp_of_def pow2_pos)

lemma round_double_near:
  assumes "q \<noteq> 0" shows "\<bar>round_double q - q\<bar> \<le> ulp_of q / 2"
proof -
  let ?u = "ulp_of q"
  have "\<bar>of_int (round_half_even (q / ?u)) - q / ?u\<bar> * ?u \<le> (1 / 2) * ?u"
    using round_half_even_near [of "q / ?u"] ulp_pos [of q]
    by (intro mult_right_mono) simp_all
  moreover have "\<bar>of_int (round_half_even (q / ?u)) - q / ?u\<bar> * ?u
                   = \<bar>round_double q - q\<bar>"
  proof -
    have "(of_int (round_half_even (q / ?u)) - q / ?u) * ?u = round_double q - q"
      using ulp_pos [of q] assms by (simp add: round_double_ulp left_diff_distrib)
    then have "\<bar>round_double q - q\<bar> = \<bar>of_int (round_half_even (q / ?u)) - q / ?u\<bar> * \<bar>?u\<bar>"
      by (simp only: abs_mult [symmetric])
    then show ?thesis using ulp_pos [of q] by simp
  qed
  ultimately show ?thesis by simp
qed

lemma ulp_small_integer:
  assumes "q \<noteq> 0" "\<bar>q\<bar> < 2 ^ 53"
  shows "\<exists>j. ulp_of q * 2 ^ j = 1"
proof -
  have qpos: "0 < \<bar>q\<bar>" using assms(1) by simp
  have "pow2 (ilog2 \<bar>q\<bar>) < pow2 53"
    using ilog2_bounds(1) [OF qpos] assms(2) by (simp add: pow2_def)
  then have "ilog2 \<bar>q\<bar> < 53"
    using pow2_mono [of 53 "ilog2 \<bar>q\<bar>"] by (cases "ilog2 \<bar>q\<bar> < 53") auto
  then have e: "0 \<le> 52 - max (ilog2 \<bar>q\<bar>) (- 1022)" by simp
  have "ulp_of q * 2 ^ nat (52 - max (ilog2 \<bar>q\<bar>) (- 1022)) = 1"
    using pow2_neg_int [OF e] by (simp add: ulp_of_def)
  then show ?thesis ..
qed

lemma round_double_of_int:
  assumes "\<bar>i\<bar> < 2 ^ 53"
  shows "round_double (of_int i) = of_int i"
proof (cases "i = 0")
  case True then show ?thesis by (simp add: round_double_def)
next
  case False
  let ?q = "of_int i :: rat"
  have nz: "?q \<noteq> 0" using False by simp
  have "\<bar>?q\<bar> < 2 ^ 53"
  proof -
    have "(of_int \<bar>i\<bar> :: rat) < of_int (2 ^ 53)" using assms by (simp only: of_int_less_iff)
    then show ?thesis by simp
  qed
  then obtain j where j: "ulp_of ?q * 2 ^ j = 1" using ulp_small_integer [OF nz] by blast
  have "?q / ulp_of ?q = ?q * 2 ^ j"
    using j ulp_pos [of ?q] by (simp add: field_simps)
  also have "\<dots> = of_int (i * 2 ^ j)" by simp
  finally have "round_half_even (?q / ulp_of ?q) = i * 2 ^ j"
    by (simp only: round_half_even_of_int)
  then have "round_double ?q = of_int (i * 2 ^ j) * ulp_of ?q"
    by (simp only: round_double_ulp [OF nz])
  also have "\<dots> = ?q * (ulp_of ?q * 2 ^ j)" by simp
  finally show ?thesis by (simp only: j mult_1_right)
qed

lemma round_double_quotient:
  assumes a: "0 \<le> a" "a < 2 ^ 53" and b: "0 < b"
  shows "of_int (a div b) \<le> round_double (of_int a / of_int b)"
    and "round_double (of_int a / of_int b) < of_int (a div b) + 1"
proof -
  define q :: rat where "q = of_int a / of_int b"
  define k where "k = a div b"
  have kfloor: "k = \<lfloor>q\<rfloor>"
    unfolding k_def q_def by (rule floor_divide_of_int_eq [symmetric])
  have kq: "of_int k \<le> q" unfolding kfloor by (rule of_int_floor_le)
  have k0: "0 \<le> k" using a(1) b by (simp add: k_def pos_imp_zdiv_nonneg_iff)
  have both: "of_int k \<le> round_double q \<and> round_double q < of_int k + 1"
  proof (cases "a = 0")
    case True then show ?thesis by (simp add: round_double_def q_def k_def)
  next
    case False
    then have apos: "0 < a" using a(1) by simp
    have qpos: "0 < q" using apos b by (simp add: q_def)
    have nz: "q \<noteq> 0" using qpos by simp
    have a53: "(of_int a :: rat) < 2 ^ 53"
    proof -
      have "(of_int a :: rat) < of_int (2 ^ 53)" using a(2) by (simp only: of_int_less_iff)
      then show ?thesis by simp
    qed
    have b1: "(1 :: rat) \<le> of_int b" using b by simp
    have qa: "q \<le> of_int a"
      using b1 apos by (simp add: q_def pos_divide_le_eq mult_le_cancel_left1)
    have q53: "\<bar>q\<bar> < 2 ^ 53" using qa a53 qpos by simp
    obtain j where j: "ulp_of q * 2 ^ j = 1" using ulp_small_integer [OF nz q53] by blast
    define u where "u = ulp_of q"
    have upos: "0 < u" unfolding u_def by (rule ulp_pos)
    have uj: "u * 2 ^ j = 1" using j by (simp add: u_def)
    have inv: "1 / u = 2 ^ j" using uj upos by (simp add: field_simps)
    have rd: "round_double q = of_int (round_half_even (q / u)) * u"
      unfolding u_def by (rule round_double_ulp [OF nz])
    \<comment> \<open>the lower bound: \<open>k\<close> is a multiple of the spacing\<close>
    have "of_int (k * 2 ^ j) = of_int k * (1 / u)"
      by (simp only: inv) simp
    also have "\<dots> = of_int k / u" by simp
    also have "\<dots> \<le> q / u" using kq upos by (intro divide_right_mono) simp_all
    finally have "k * 2 ^ j \<le> round_half_even (q / u)" by (rule round_half_even_ge)
    then have "(of_int (k * 2 ^ j) :: rat) \<le> of_int (round_half_even (q / u))"
      by (simp only: of_int_le_iff)
    then have "of_int (k * 2 ^ j) * u \<le> of_int (round_half_even (q / u)) * u"
      using upos by (simp only: mult_le_cancel_right_pos)
    moreover have "of_int (k * 2 ^ j) * u = of_int k * (u * 2 ^ j)" by simp
    ultimately have lower: "of_int k \<le> round_double q"
      by (simp only: rd uj mult_1_right)
    \<comment> \<open>the upper bound: the rounding error is below the distance to \<open>k + 1\<close>\<close>
    have gap: "1 / of_int b \<le> of_int k + 1 - q"
    proof -
      have "a mod b < b" using b by simp
      moreover have "a = k * b + a mod b" by (simp add: k_def)
      ultimately have "1 \<le> (k + 1) * b - a" by (simp add: algebra_simps)
      then have "(of_int 1 :: rat) \<le> of_int ((k + 1) * b - a)" by (simp only: of_int_le_iff)
      then have "(1 :: rat) \<le> of_int ((k + 1) * b - a)" by (simp only: of_int_1)
      then have "(1 :: rat) / of_int b \<le> of_int ((k + 1) * b - a) / of_int b"
        using b by (intro divide_right_mono) simp_all
      also have "\<dots> = of_int k + 1 - q"
        using b by (simp add: q_def field_simps)
      finally show ?thesis .
    qed
    have half: "u / 2 < of_int k + 1 - q"
    proof (cases "- 1022 \<le> ilog2 q")
      case True
      then have "u = pow2 (ilog2 q) * pow2 (- 52)"
        using qpos by (simp add: u_def ulp_of_def pow2_add [symmetric] max_def)
      also have "\<dots> \<le> q * pow2 (- 52)"
        using ilog2_bounds(1) [OF qpos] pow2_pos [of "- 52"] by simp
      finally have "u / 2 \<le> q * pow2 (- 52) / 2" by simp
      also have "\<dots> = q / 2 ^ 53" by (simp add: pow2_def)
      also have "\<dots> = (of_int a / 2 ^ 53) / of_int b" by (simp add: q_def)
      also have "\<dots> < 1 / of_int b"
        using a53 b by (intro divide_strict_right_mono) simp_all
      finally show ?thesis using gap by linarith
    next
      case False
      then have il: "ilog2 q + 1 \<le> - 1022" by simp
      have "q < pow2 (ilog2 q + 1)" using ilog2_bounds(2) [OF qpos] .
      also have "\<dots> \<le> pow2 (- 1)" using il by (intro pow2_mono) simp
      finally have q_half: "q < 1 / 2" by (simp add: pow2_def)
      have "u = pow2 (- 1074)" using False qpos by (simp add: u_def ulp_of_def max_def)
      also have "\<dots> \<le> pow2 (- 1)" by (intro pow2_mono) simp
      finally have "u \<le> 1 / 2" by (simp add: pow2_def)
      moreover have "(0 :: rat) \<le> of_int k" using k0 by simp
      ultimately show ?thesis using q_half by linarith
    qed
    have "round_double q \<le> q + u / 2"
      using round_double_near [OF nz] unfolding u_def by linarith
    then have upper: "round_double q < of_int k + 1" using half by linarith
    show ?thesis using lower upper by simp
  qed
  show "of_int (a div b) \<le> round_double (of_int a / of_int b)"
    using both by (simp add: q_def k_def)
  show "round_double (of_int a / of_int b) < of_int (a div b) + 1"
    using both by (simp add: q_def k_def)
qed

lemma pow2_1024_big: "(2 :: rat) ^ 53 \<le> pow2 1024"
  by (simp add: pow2_def)

lemma time_ms_of_exact:
  assumes "0 \<le> cur_ticks * tempo" "cur_ticks * tempo < 2 ^ 53" "0 < tpb"
  shows "time_ms_of cur_ticks tempo tpb = Inr ((cur_ticks * tempo) div (tpb * 1000))"
proof -
  define a where "a = cur_ticks * tempo"
  define b where "b = tpb * 1000"
  define r where "r = round_double (of_int a / of_int b)"
  have bpos: "0 < b" using assms(3) by (simp add: b_def)
  have a0: "0 \<le> a" and a53: "a < 2 ^ 53" using assms by (simp_all add: a_def)
  have lo: "of_int (a div b) \<le> r" and hi: "r < of_int (a div b) + 1"
    unfolding r_def using round_double_quotient [OF a0 a53 bpos] by simp_all
  have k0: "0 \<le> a div b" using a0 bpos by (simp add: pos_imp_zdiv_nonneg_iff)
  have "a div b \<le> a" using zdiv_mono2 [of a 1 b] a0 bpos by simp
  then have "a div b + 1 \<le> 2 ^ 53" using a53 by simp
  then have "(of_int (a div b + 1) :: rat) \<le> of_int (2 ^ 53)" by (simp only: of_int_le_iff)
  then have "(of_int (a div b) :: rat) + 1 \<le> 2 ^ 53" by simp
  then have rlt: "r < pow2 1024" using hi pow2_1024_big by linarith
  have r0: "0 \<le> r" using lo k0 by (meson of_int_0_le_iff order_trans)
  have nov: "\<not> dbl_overflow r" using rlt r0 by (simp add: dbl_overflow_def)
  have fl: "\<lfloor>r\<rfloor> = a div b" using lo hi by (intro floor_unique) simp_all
  have "py_truediv a b = Inr (Fin r)"
    using bpos nov by (simp add: py_truediv_def r_def Let_def)
  then show ?thesis
    using r0 fl by (simp add: time_ms_of_def a_def [symmetric] b_def [symmetric])
qed

lemma time_ms_480: "time_ms_of 480 500000 480 = Inr 500"
  by (simp add: time_ms_of_exact)

lemma py_float_of_int_exact:
  assumes "\<bar>i\<bar> < 2 ^ 53"
  shows "py_float_of_int i = Inr (Fin (of_int i))"
proof -
  have "(of_int \<bar>i\<bar> :: rat) < of_int (2 ^ 53)" using assms by (simp only: of_int_less_iff)
  then have "\<bar>of_int i :: rat\<bar> < pow2 1024" using pow2_1024_big by simp
  then show ?thesis
    by (simp add: py_float_of_int_def round_double_of_int [OF assms] dbl_overflow_def)
qed

lemma ulp_le:
  assumes "x \<noteq> 0" shows "ulp_of x \<le> \<bar>x\<bar> + 1"
proof (cases "ilog2 \<bar>x\<bar> < - 1022")
  case True
  then have "ulp_of x = pow2 (- 1074)" by (simp add: ulp_of_def max_def)
  also have "\<dots> \<le> pow2 0" by (intro pow2_mono) simp
  finally show ?thesis by (simp add: pow2_0)
next
  case False
  then have pos: "0 < \<bar>x\<bar>" and il: "- 1022 \<le> ilog2 \<bar>x\<bar>" using assms by auto
  have "ulp_of x = pow2 (ilog2 \<bar>x\<bar> - 52)" using il by (simp add: ulp_of_def max_def)
  also have "\<dots> \<le> pow2 (ilog2 \<bar>x\<bar>)" by (intro pow2_mono) simp
  also have "\<dots> \<le> \<bar>x\<bar>" using ilog2_bounds(1) [OF pos] .
  finally show ?thesis by simp
qed

lemma round_double_abs_le: "\<bar>round_double x\<bar> \<le> 2 * \<bar>x\<bar> + 1"
proof (cases "x = 0")
  case True then show ?thesis by (simp add: round_double_def)
next
  case False
  have "\<bar>round_double x - x\<bar> \<le> ulp_of x / 2" using round_double_near [OF False] .
  then have "\<bar>round_double x\<bar> \<le> \<bar>x\<bar> + ulp_of x / 2" by linarith
  then show ?thesis using ulp_le [OF False] by linarith
qed

lemma no_overflow_106:
  assumes "\<bar>x\<bar> \<le> 2 ^ 106" shows "\<not> dbl_overflow (round_double x)"
proof -
  have "\<bar>round_double x\<bar> \<le> 2 * 2 ^ 106 + 1"
    using round_double_abs_le [of x] assms by linarith
  also have "\<dots> < (2 :: rat) ^ 1024" by simp
  finally show ?thesis by (simp add: dbl_overflow_def pow2_def)
qed

lemma scale_round_finite:
  assumes i: "\<bar>i\<bar> < 2 ^ 53" and s: "\<bar>s\<bar> \<le> 2 ^ 53"
  shows "scale_round i (Fin s) = Inr (round_half_even (round_double (of_int i * s)))"
proof -
  have "(of_int \<bar>i\<bar> :: rat) < of_int (2 ^ 53)" using i by (simp only: of_int_less_iff)
  then have i': "\<bar>of_int i :: rat\<bar> \<le> 2 ^ 53" by simp
  have "\<bar>of_int i * s\<bar> = \<bar>of_int i :: rat\<bar> * \<bar>s\<bar>" by (rule abs_mult)
  also have "\<dots> \<le> 2 ^ 53 * 2 ^ 53" using i' s by (intro mult_mono) simp_all
  finally have "\<bar>of_int i * s\<bar> \<le> 2 ^ 106" by simp
  then have "\<not> dbl_overflow (round_double (of_int i * s))" by (rule no_overflow_106)
  then show ?thesis
    by (simp add: scale_round_def py_float_of_int_exact [OF i] fin_or_inf_def)
qed

lemma scale_round_1000_half: "scale_round 1000 (Fin (1 / 2)) = Inr 500"
proof -
  have "round_double (of_int 500) = of_int 500" by (rule round_double_of_int) simp
  moreover have "round_half_even (of_int 500) = 500" by (rule round_half_even_of_int)
  ultimately show ?thesis by (simp add: scale_round_finite)
qed

lemma scale_round_200_half: "scale_round 200 (Fin (1 / 2)) = Inr 100"
proof -
  have "round_double (of_int 100) = of_int 100" by (rule round_double_of_int) simp
  moreover have "round_half_even (of_int 100) = 100" by (rule round_half_even_of_int)
  ultimately show ?thesis by (simp add: scale_round_finite)
qed

lemma scale_round_zero:
  assumes "\<bar>i\<bar> < 2 ^ 53" shows "scale_round i (Fin 0) = Inr 0"
proof -
  have "round_half_even 0 = 0" using round_half_even_of_int [of 0] by simp
  then show ?thesis using assms by (simp add: scale_round_finite round_double_def)
qed

lemma time_ms_big:
  "time_ms_of 1080863910568919 500000 480 = Inr 1125899906842624"
proof -
  define q :: rat where "q = 540431955284459500000 / 480000"
  have il: "ilog2 \<bar>q\<bar> = 49"
    by (rule ilog2_unique) (simp_all add: q_def pow2_def)
  have u: "ulp_of q = 1 / 8" by (simp add: ulp_of_def il pow2_def)
  have fl: "\<lfloor>q * 8\<rfloor> = 9007199254740991"
    by (rule floor_unique) (simp_all add: q_def)
  have rhe: "round_half_even (q * 8) = 9007199254740992"
    by (simp add: round_half_even_def fl Let_def) (simp add: q_def)
  have nz: "q \<noteq> 0" by (simp add: q_def)
  have rd: "round_double q = 1125899906842624"
    by (simp add: round_double_ulp [OF nz] u rhe)
  have "py_truediv 540431955284459500000 480000 = Inr (Fin 1125899906842624)"
    using rd by (simp add: py_truediv_def q_def [symmetric] dbl_overflow_def pow2_def Let_def)
  then show ?thesis by (simp add: time_ms_of_def)
qed

section \<open>Facts about the pairing loop\<close>

lemma pair_step_state_limit: "fst (pair_step limit st ev) = fst (pair_step None st ev)"
  by (cases st; cases ev) (auto simp: Let_def split: option.splits)

lemma pair_step_None_continues: "snd (pair_step None st ev) = False"
  by (cases st; cases ev) (auto simp: Let_def limit_reached_def split: option.splits)

lemma pair_step_unmatched:
  "active p = None \<Longrightarrow> pair_step limit (out, active, idx) (p, t, ''OFF'') = ((out, active, idx), False)"
  by simp

lemma pair_loop_drop_unmatched:
  assumes "pair_loop None st xs = (out, active, idx)" and "active p = None"
  shows "pair_loop limit st (xs @ (p, t, ''OFF'') # ys) = pair_loop limit st (xs @ ys)"
  using assms
proof (induction xs arbitrary: st)
  case Nil
  then show ?case by simp
next
  case (Cons x xs)
  obtain st' brk where step: "pair_step limit st x = (st', brk)" by (cases "pair_step limit st x")
  have st': "pair_step None st x = (st', False)"
    using pair_step_state_limit [of limit st x] pair_step_None_continues [of st x] step
    by (cases "pair_step None st x") simp
  show ?case
  proof (cases brk)
    case True
    then show ?thesis using step by simp
  next
    case False
    have "pair_loop None st' xs = (out, active, idx)" using Cons.prems(1) st' by simp
    then have "pair_loop limit st' (xs @ (p, t, ''OFF'') # ys) = pair_loop limit st' (xs @ ys)"
      using Cons.IH Cons.prems(2) by blast
    then show ?thesis using step False by simp
  qed
qed

lemma min_list_shift:
  "xs \<noteq> [] \<Longrightarrow> min_list (map (\<lambda>x. x - c) xs) = min_list xs - (c :: int)"
proof (induction xs)
  case Nil then show ?case by simp
next
  case (Cons x xs)
  show ?case
  proof (cases xs)
    case Nil then show ?thesis by simp
  next
    case (Cons y ys)
    then have "min_list (map (\<lambda>x. x - c) xs) = min_list xs - c" using Cons.IH by simp
    then show ?thesis using Cons by (simp add: min_def)
  qed
qed

lemma min_list_le: "x \<in> set xs \<Longrightarrow> min_list xs \<le> (x :: int)"
proof (induction xs)
  case Nil then show ?case by simp
next
  case (Cons y ys)
  show ?case
  proof (cases ys)
    case Nil then show ?thesis using Cons.prems by simp
  next
    case (Cons z zs)
    then have "min_list (y # ys) = min y (min_list ys)" by simp
    then show ?thesis using Cons.IH Cons.prems by auto
  qed
qed

lemma renormalize_times:
  "out \<noteq> [] \<Longrightarrow> map timeMSec (renormalize out)
          = map (\<lambda>x. x - min_list (map timeMSec out)) (map timeMSec out)"
  by (simp add: renormalize_def Let_def comp_def)

lemma renormalize_min:
  assumes "out \<noteq> []"
  shows "min_list (map timeMSec (renormalize out)) = 0"
proof -
  have "map timeMSec out \<noteq> []" using assms by simp
  then have "min_list (map (\<lambda>x. x - min_list (map timeMSec out)) (map timeMSec out))
      = min_list (map timeMSec out) - min_list (map timeMSec out)"
    by (rule min_list_shift)
  then show ?thesis by (simp only: renormalize_times [OF assms])
qed

lemma renormalize_props:
  "length (renormalize out) = length out"
  "map index (renormalize out) = map index out"
  "map noteDuration (renormalize out) = map noteDuration out"
  "map midiNoteNumber (renormalize out) = map midiNoteNumber out"
  by (simp_all add: renormalize_def Let_def comp_def)

lemma renormalize_nonneg:
  assumes "n \<in> set (renormalize out)" shows "0 \<le> timeMSec n"
proof -
  have ne: "out \<noteq> []" using assms by (auto simp: renormalize_def)
  have "timeMSec n \<in> set (map timeMSec (renormalize out))" using assms by simp
  then have "min_list (map timeMSec (renormalize out)) \<le> timeMSec n" by (rule min_list_le)
  then show ?thesis using renormalize_min [OF ne] by simp
qed

lemma pair_step_inv:
  assumes inv: "pair_inv (out, active, idx)"
    and sb: "starts_before active ((p, t, state) # evs)"
    and le: "list_all (\<lambda>e. t \<le> fst (snd e)) evs"
    and step: "pair_step limit (out, active, idx) (p, t, state) = ((out', active', idx'), brk)"
  shows "pair_inv (out', active', idx') \<and> starts_before active' evs"
proof (cases "state = ''ON''")
  case True
  then have eq: "out' = out" "active' = active(p \<mapsto> t)" "idx' = idx" using step by simp_all
  have "starts_before (active(p \<mapsto> t)) evs"
    using sb le by (auto simp: starts_before_def)
  then show ?thesis using inv eq by (simp add: pair_inv_def)
next
  case notON: False
  show ?thesis
  proof (cases "state = ''OFF''")
    case False
    then have eq: "out' = out" "active' = active" "idx' = idx" using step notON by simp_all
    have "starts_before active evs" using sb by (auto simp: starts_before_def)
    then show ?thesis using inv eq by (simp add: pair_inv_def)
  next
    case OFF: True
    show ?thesis
    proof (cases "active p")
      case None
      then have eq: "out' = out" "active' = active" "idx' = idx" using step OFF by simp_all
      have "starts_before active evs" using sb by (auto simp: starts_before_def)
      then show ?thesis using inv eq by (simp add: pair_inv_def)
    next
      case (Some start)
      then have eq: "out' = out @ [\<lparr>index = idx, midiNoteNumber = p, timeMSec = start,
                                     noteDuration = t - start\<rparr>]"
          "active' = active(p := None)" "idx' = idx + 1"
        using step OFF by (simp_all add: Let_def)
      have "start \<le> t" using sb Some by (auto simp: starts_before_def)
      then have "pair_inv (out', active', idx')"
        using inv by (simp add: pair_inv_def eq)
      moreover have "starts_before (active(p := None)) evs"
        using sb by (auto simp: starts_before_def split: if_splits)
      ultimately show ?thesis using eq by simp
    qed
  qed
qed

lemma pair_loop_inv:
  assumes "sorted (map (\<lambda>e. fst (snd e)) evs)" "pair_inv st" "starts_before (fst (snd st)) evs"
  shows "pair_inv (pair_loop limit st evs)"
  using assms
proof (induction evs arbitrary: st)
  case Nil
  then show ?case by simp
next
  case (Cons ev evs)
  obtain out active idx where st: "st = (out, active, idx)" by (cases st)
  obtain p t state where ev: "ev = (p, t, state)" by (cases ev)
  obtain out' active' idx' brk where
    step: "pair_step limit (out, active, idx) (p, t, state) = ((out', active', idx'), brk)"
    by (cases "pair_step limit (out, active, idx) (p, t, state)") auto
  have le: "list_all (\<lambda>e. t \<le> fst (snd e)) evs"
    using Cons.prems(1) by (auto simp: ev list_all_iff)
  have srt: "sorted (map (\<lambda>e. fst (snd e)) evs)" using Cons.prems(1) by simp
  have inv': "pair_inv (out', active', idx') \<and> starts_before active' evs"
    using pair_step_inv [OF _ _ le step] Cons.prems(2,3) by (simp add: st ev)
  show ?case
  proof (cases brk)
    case True
    then show ?thesis using step inv' by (simp add: st ev)
  next
    case False
    have "pair_inv (pair_loop limit (out', active', idx') evs)"
      using Cons.IH [OF srt, of "(out', active', idx')"] inv' by simp
    then show ?thesis using step False by (simp add: st ev)
  qed
qed

lemma paired_inv:
  assumes "sorted (map (\<lambda>e. fst (snd e)) events)"
  shows "list_all (\<lambda>n. 0 \<le> noteDuration n) (paired events limit)"
    and "map index (paired events limit) = map int [0..<length (paired events limit)]"
proof -
  have "pair_inv (pair_loop limit ([], Map.empty, 0) events)"
    using assms by (intro pair_loop_inv) (simp_all add: pair_inv_def starts_before_def)
  then show "list_all (\<lambda>n. 0 \<le> noteDuration n) (paired events limit)"
    and "map index (paired events limit) = map int [0..<length (paired events limit)]"
    by (auto simp: pair_inv_def paired_def split: prod.splits)
qed

section \<open>Facts about the store of the pipeline\<close>

lemma well_behavedD:
  assumes "well_behaved f" "r < length h" "f r h = (r', h')"
  shows "length h \<le> length h'" "r' < length h'" "r' = r \<or> length h \<le> r'"
    "\<And>i. i < length h \<Longrightarrow> i \<noteq> r \<Longrightarrow> h' ! i = h ! i"
proof -
  note a = assms(1) [unfolded well_behaved_def, rule_format, OF assms(2)]
  show "length h \<le> length h'" using a by (simp add: assms(3))
  show "r' < length h'" using a by (simp add: assms(3))
  show "r' = r \<or> length h \<le> r'" using a by (simp add: assms(3))
  show "\<And>i. i < length h \<Longrightarrow> i \<noteq> r \<Longrightarrow> h' ! i = h ! i" using a by (simp add: assms(3))
qed

lemma apply_mods_frame:
  assumes "list_all well_behaved mods" "r < length h" "b \<le> r" "apply_mods mods r h = (r', h')"
  shows "length h \<le> length h' \<and> r' < length h' \<and> b \<le> r' \<and> (\<forall>i<b. h' ! i = h ! i)"
  using assms
proof (induction mods arbitrary: r h)
  case Nil
  then show ?case by simp
next
  case (Cons f mods)
  obtain r1 h1 where f: "f r h = (r1, h1)" by (cases "f r h")
  have wb: "well_behaved f" and rest: "list_all well_behaved mods" using Cons.prems(1) by simp_all
  note d = well_behavedD [OF wb Cons.prems(2) f]
  have r1: "r1 < length h1" using d(2) .
  have b1: "b \<le> r1" using d(3) Cons.prems(2,3) by linarith
  have run: "apply_mods mods r1 h1 = (r', h')" using Cons.prems(4) f by simp
  have ih: "length h1 \<le> length h' \<and> r' < length h' \<and> b \<le> r' \<and> (\<forall>i<b. h' ! i = h1 ! i)"
    using Cons.IH [OF rest r1 b1 run] .
  have "\<forall>i<b. h1 ! i = h ! i" using d(4) Cons.prems(2,3) by simp
  then show ?case using ih d(1) by simp
qed

lemma transform_loop_step:
  "transform_loop opts mods (n # ns) (out, h) =
     (case transform_fields opts (h ! n) of
        Inl e \<Rightarrow> Inl e
      | Inr v \<Rightarrow> transform_loop opts mods ns
                 (out @ [fst (apply_mods mods (length h) (h @ [v]))],
                  snd (apply_mods mods (length h) (h @ [v]))))"
  by (simp add: new_note_def split: sum.splits prod.splits)

lemma transform_loop_frame:
  assumes wb: "list_all well_behaved mods"
    and "list_all (\<lambda>n. n < length h) ns"
    and "transform_loop opts mods ns (out, h) = Inr (out', h')"
  shows "length h \<le> length h' \<and> (\<forall>i<length h. h' ! i = h ! i)
       \<and> (\<exists>new. out' = out @ new \<and> length new = length ns \<and> sorted_wrt (<) new
              \<and> list_all (\<lambda>e. length h \<le> e \<and> e < length h') new)"
  using assms(2,3)
proof (induction ns arbitrary: out h)
  case Nil
  then show ?case by simp
next
  case (Cons n ns)
  obtain v where v: "transform_fields opts (h ! n) = Inr v"
    using Cons.prems(2) unfolding transform_loop_step
    by (cases "transform_fields opts (h ! n)") simp_all
  obtain m' h2 where mods: "apply_mods mods (length h) (h @ [v]) = (m', h2)"
    by (cases "apply_mods mods (length h) (h @ [v])")
  have rec: "transform_loop opts mods ns (out @ [m'], h2) = Inr (out', h')"
    using Cons.prems(2) unfolding transform_loop_step by (simp add: v mods)
  have fr: "length (h @ [v]) \<le> length h2 \<and> m' < length h2 \<and> length h \<le> m'
            \<and> (\<forall>i<length h. h2 ! i = (h @ [v]) ! i)"
    by (rule apply_mods_frame [OF wb _ _ mods]) simp_all
  have len: "length h < length h2" using fr by simp
  have old: "\<forall>i<length h. h2 ! i = h ! i" using fr by (simp add: nth_append)
  have ns: "list_all (\<lambda>n. n < length h2) ns"
    using Cons.prems(1) len by (auto simp: list_all_iff)
  have ih: "length h2 \<le> length h' \<and> (\<forall>i<length h2. h' ! i = h2 ! i)
       \<and> (\<exists>new. out' = (out @ [m']) @ new \<and> length new = length ns \<and> sorted_wrt (<) new
              \<and> list_all (\<lambda>e. length h2 \<le> e \<and> e < length h') new)"
    using Cons.IH [OF ns rec] .
  then obtain new where new: "out' = (out @ [m']) @ new" "length new = length ns"
      "sorted_wrt (<) new" "list_all (\<lambda>e. length h2 \<le> e \<and> e < length h') new"
    by blast
  have a: "out' = out @ (m' # new)" using new(1) by simp
  have b: "length (m' # new) = length (n # ns)" using new(2) by simp
  have c: "sorted_wrt (<) (m' # new)"
    using new(3,4) fr by (auto simp: list_all_iff)
  have d: "list_all (\<lambda>e. length h \<le> e \<and> e < length h') (m' # new)"
    using new(4) fr len ih by (auto simp: list_all_iff)
  have e: "length h \<le> length h'" using len ih by simp
  have f: "\<forall>i<length h. h' ! i = h ! i" using old ih len by simp
  show ?case using a b c d e f by blast
qed

lemma subtract_all_length: "length (subtract_all t0 es h) = length h"
  by (induction es arbitrary: h) simp_all

lemma subtract_all_other: "i \<notin> set es \<Longrightarrow> subtract_all t0 es h ! i = h ! i"
  by (induction es arbitrary: h) (simp_all add: nth_list_update)

lemma subtract_all_distinct:
  assumes "distinct es" "list_all (\<lambda>e. e < length h) es" "e \<in> set es"
  shows "subtract_all t0 es h ! e = (h ! e)\<lparr>timeMSec := timeMSec (h ! e) - t0\<rparr>"
  using assms
proof (induction es arbitrary: h)
  case Nil
  then show ?case by simp
next
  case (Cons x es)
  define h1 where "h1 = h[x := (h ! x)\<lparr>timeMSec := timeMSec (h ! x) - t0\<rparr>]"
  have sub: "subtract_all t0 (x # es) h = subtract_all t0 es h1" by (simp add: h1_def)
  have d: "distinct es" "x \<notin> set es" using Cons.prems(1) by simp_all
  have l: "list_all (\<lambda>e. e < length h1) es" "x < length h"
    using Cons.prems(2) by (simp_all add: h1_def)
  show ?case
  proof (cases "e = x")
    case True
    then have "subtract_all t0 es h1 ! e = h1 ! e" using d(2) by (simp add: subtract_all_other)
    then show ?thesis using True l(2) by (simp add: sub h1_def)
  next
    case False
    then have "e \<in> set es" using Cons.prems(3) by simp
    then have "subtract_all t0 es h1 ! e = (h1 ! e)\<lparr>timeMSec := timeMSec (h1 ! e) - t0\<rparr>"
      using Cons.IH [OF d(1) l(1)] by blast
    then show ?thesis using False by (simp add: sub h1_def)
  qed
qed

lemma renormalize_refs_deref:
  assumes "distinct out" "list_all (\<lambda>e. e < length h) out"
  shows "deref (renormalize_refs out h) out = renormalize (deref h out)"
proof (cases "out = []")
  case True
  then show ?thesis by (simp add: deref_def renormalize_refs_def renormalize_def)
next
  case False
  define t0 where "t0 = min_list (map (\<lambda>e. timeMSec (h ! e)) out)"
  have "\<forall>e\<in>set out. subtract_all t0 out h ! e = (h ! e)\<lparr>timeMSec := timeMSec (h ! e) - t0\<rparr>"
    using subtract_all_distinct [OF assms] by blast
  then have "map ((!) (subtract_all t0 out h)) out
               = map (\<lambda>e. (h ! e)\<lparr>timeMSec := timeMSec (h ! e) - t0\<rparr>) out"
    by simp
  then show ?thesis
    using False by (simp add: deref_def renormalize_refs_def renormalize_def t0_def comp_def)
qed

lemma renormalize_refs_other: "i \<notin> set out \<Longrightarrow> renormalize_refs out h ! i = h ! i"
  by (simp add: renormalize_refs_def subtract_all_other)

lemma renormalize_refs_length: "length (renormalize_refs out h) = length h"
  by (simp add: renormalize_refs_def subtract_all_length)

lemma apply_transforms_frame:
  assumes wb: "list_all well_behaved mods"
    and nts: "list_all (\<lambda>n. n < length h) notes"
    and run: "apply_transforms h notes opts mods = Inr (out, h')"
  shows "length out = length notes"
    and "length h \<le> length h'"
    and "list_all (\<lambda>e. length h \<le> e \<and> e < length h') out"
    and "distinct out"
    and "\<forall>i<length h. h' ! i = h ! i"
    and "out \<noteq> [] \<longrightarrow> min_list (map timeMSec (deref h' out)) = 0"
proof -
  obtain h1 where loop: "transform_loop opts mods notes ([], h) = Inr (out, h1)"
    and h': "h' = renormalize_refs out h1"
    using run by (auto simp: apply_transforms_def split: sum.splits)
  have fr: "length h \<le> length h1 \<and> (\<forall>i<length h. h1 ! i = h ! i)
       \<and> (\<exists>new. out = [] @ new \<and> length new = length notes \<and> sorted_wrt (<) new
              \<and> list_all (\<lambda>e. length h \<le> e \<and> e < length h1) new)"
    using transform_loop_frame [OF wb nts loop] .
  then have len: "length out = length notes" and srt: "sorted_wrt (<) out"
    and rng: "list_all (\<lambda>e. length h \<le> e \<and> e < length h1) out"
    and old: "\<forall>i<length h. h1 ! i = h ! i"
    by simp_all
  have dist: "distinct out" using srt by (simp add: strict_sorted_iff)
  have lt: "list_all (\<lambda>e. e < length h1) out" using rng by (simp add: list_all_iff)
  show "length out = length notes" using len .
  show "length h \<le> length h'" using fr by (simp add: h' renormalize_refs_length)
  show "list_all (\<lambda>e. length h \<le> e \<and> e < length h') out"
    using rng by (simp add: h' renormalize_refs_length)
  show "distinct out" using dist .
  show "\<forall>i<length h. h' ! i = h ! i"
  proof (intro allI impI)
    fix i assume i: "i < length h"
    then have "i \<notin> set out" using rng by (auto simp: list_all_iff)
    then show "h' ! i = h ! i" using old i by (simp add: h' renormalize_refs_other)
  qed
  show "out \<noteq> [] \<longrightarrow> min_list (map timeMSec (deref h' out)) = 0"
  proof
    assume ne: "out \<noteq> []"
    then have "deref h1 out \<noteq> []" by (simp add: deref_def)
    then have "min_list (map timeMSec (renormalize (deref h1 out))) = 0"
      by (rule renormalize_min)
    then show "min_list (map timeMSec (deref h' out)) = 0"
      by (simp only: h' renormalize_refs_deref [OF dist lt])
  qed
qed

lemma transform_fields_ok:
  assumes "small_note m" "time_scale opts = Fin s" "\<bar>s\<bar> \<le> 2 ^ 53"
  shows "\<exists>v. transform_fields opts m = Inr v"
  using assms
  by (simp add: transform_fields_def scale_note_def small_note_def scale_round_finite)

lemma transform_loop_ok:
  assumes wb: "list_all well_behaved mods"
    and sc: "time_scale opts = Fin s" "\<bar>s\<bar> \<le> 2 ^ 53"
    and "list_all (\<lambda>n. n < length h \<and> small_note (h ! n)) ns"
  shows "\<exists>out' h'. transform_loop opts mods ns (out, h) = Inr (out', h')"
  using assms(4)
proof (induction ns arbitrary: out h)
  case Nil
  then show ?case by simp
next
  case (Cons n ns)
  have "small_note (h ! n)" using Cons.prems by simp
  then obtain v where v: "transform_fields opts (h ! n) = Inr v"
    using transform_fields_ok [OF _ sc] by blast
  obtain m' h2 where mods: "apply_mods mods (length h) (h @ [v]) = (m', h2)"
    by (cases "apply_mods mods (length h) (h @ [v])")
  have fr: "length (h @ [v]) \<le> length h2 \<and> m' < length h2 \<and> length h \<le> m'
            \<and> (\<forall>i<length h. h2 ! i = (h @ [v]) ! i)"
    by (rule apply_mods_frame [OF wb _ _ mods]) simp_all
  have "list_all (\<lambda>n. n < length h2 \<and> small_note (h2 ! n)) ns"
    using Cons.prems fr by (auto simp: list_all_iff nth_append)
  then have "\<exists>out' h'. transform_loop opts mods ns (out @ [m'], h2) = Inr (out', h')"
    by (rule Cons.IH)
  then show ?case unfolding transform_loop_step by (simp add: v mods)
qed

lemma well_behaved_transposer: "well_behaved (make_transposer N)"
  by (simp add: well_behaved_def make_transposer_def)

lemma well_behaved_clamp: "well_behaved clamp_mod"
  by (simp add: well_behaved_def clamp_mod_def)

lemma well_behaved_extra_mods: "list_all well_behaved (extra_mods N c)"
  by (simp add: extra_mods_def well_behaved_transposer well_behaved_clamp)

lemma scale_round_neg: "scale_round 1000 (Fin (- 1)) = Inr (- 1000)"
proof -
  have "round_double (of_int (- 1000)) = of_int (- 1000)" by (rule round_double_of_int) simp
  moreover have "round_half_even (of_int (- 1000)) = - 1000" by (rule round_half_even_of_int)
  ultimately show ?thesis by (simp add: scale_round_finite)
qed

lemma scale_round_neg2: "scale_round 200 (Fin (- 1)) = Inr (- 200)"
proof -
  have "round_double (of_int (- 200)) = of_int (- 200)" by (rule round_double_of_int) simp
  moreover have "round_half_even (of_int (- 200)) = - 200" by (rule round_half_even_of_int)
  ultimately show ?thesis by (simp add: scale_round_finite)
qed

section \<open>The claims\<close>

text \<open>
  C1. A tempo change must not reach back: ticks that elapsed before it keep the
  milliseconds they had.  The program multiplies the whole tick count by the
  tempo of the moment, so it does reach back.  For a track at 480 ticks per
  beat with ON(60) after 480 ticks, a change to 250000 microseconds per beat at
  the same tick, and OFF(60) 480 ticks later, the OFF should come at
  500 + 250 = 750 ms, as the conversion written from the specification
  computes; the program puts it at 960 * 250000 / 480000 = 500 ms.
\<close>

theorem tempo_change_is_retroactive:
  "transcribe_midi (Inr \<lparr>ticks_per_beat = 480,
      tracks = [[NoteOnMsg 480 60 64, SetTempo 0 250000, NoteOffMsg 480 60 0]]\<rparr>)
   = [(60, 500, ''ON''), (60, 500, ''OFF'')]
   \<and> spec_nonretroactive_times 480 (0, default_tempo)
       [NoteOnMsg 480 60 64, SetTempo 0 250000, NoteOffMsg 480 60 0]
     = [500, 500, 750]"
  by (simp add: transcribe_midi_def default_tempo_def time_ms_of_exact Let_def)

text \<open>
  C2. A non-positive time scale is not rejected: there is no check of the
  options, and the pipeline runs the same steps as for any other value.  For
  every finite scale \<open>s\<close> with \<open>-2^53 \<le> s \<le> 0\<close>, input notes whose times and
  durations are below \<open>2^53\<close> in magnitude and well-behaved modifiers, the call
  returns without error, with one output note per input note.
\<close>

theorem nonpositive_scale_not_rejected:
  assumes "s \<le> 0" and "- (2 ^ 53) \<le> s" and "time_scale opts = Fin s"
    and "list_all well_behaved mods"
    and "list_all (\<lambda>n. n < length h \<and> small_note (h ! n)) notes"
  shows "\<exists>out h'. apply_transforms h notes opts mods = Inr (out, h')
                  \<and> length out = length notes"
proof -
  have s: "\<bar>s\<bar> \<le> 2 ^ 53" using assms(1,2) by simp
  obtain out h1 where loop: "transform_loop opts mods notes ([], h) = Inr (out, h1)"
    using transform_loop_ok [OF assms(4) assms(3) s assms(5)] by blast
  then have run: "apply_transforms h notes opts mods = Inr (out, renormalize_refs out h1)"
    by (simp add: apply_transforms_def)
  have "list_all (\<lambda>n. n < length h) notes" using assms(5) by (simp add: list_all_iff)
  then have "length out = length notes"
    using apply_transforms_frame(1) [OF assms(4) _ run] by blast
  then show ?thesis using run by blast
qed

theorem nonpositive_scale_not_rejected_witness:
  "\<exists>out h'. apply_transforms
      [\<lparr>index = 0, midiNoteNumber = 60, timeMSec = 1000, noteDuration = 200\<rparr>] [0]
      \<lparr>time_shift_ms = 50, time_scale = Fin 0, min_duration_ms = 40\<rparr> (extra_mods 5 True)
       = Inr (out, h') \<and> length out = length [0 :: nat]"
  using nonpositive_scale_not_rejected [of 0
      "\<lparr>time_shift_ms = 50, time_scale = Fin 0, min_duration_ms = 40\<rparr>" "extra_mods 5 True"
      "[\<lparr>index = 0, midiNoteNumber = 60, timeMSec = 1000, noteDuration = 200\<rparr>]" "[0]"]
  by (simp add: small_note_def well_behaved_extra_mods)

theorem negative_scale_counterexample:
  "apply_transforms
     [\<lparr>index = 0, midiNoteNumber = 60, timeMSec = 1000, noteDuration = 200\<rparr>] [0]
     \<lparr>time_shift_ms = 0, time_scale = Fin (- 1), min_duration_ms = 0\<rparr> []
   = Inr ([1], [\<lparr>index = 0, midiNoteNumber = 60, timeMSec = 1000, noteDuration = 200\<rparr>,
                \<lparr>index = 0, midiNoteNumber = 60, timeMSec = 0, noteDuration = - 200\<rparr>])"
  by (simp add: apply_transforms_def new_note_def transform_fields_def scale_note_def
      shift_note_def floor_note_def scale_round_neg scale_round_neg2 renormalize_refs_def)

text \<open>
  C3. Whenever the ticks per beat are positive and the product of the tick count
  and the tempo is non-negative and below \<open>2^53\<close>, the time of a message is the
  integer quotient \<open>cur_ticks * tempo div (ticks_per_beat * 1000)\<close>, and every event
  the message appends carries that time.  With tempo 500000 and 480 ticks per
  beat, 480 ticks are exactly 500 ms.
\<close>

theorem tick_conversion_truncates:
  assumes "0 < tpb" and "0 \<le> (cur_ticks + msg_time m) * tempo"
    and "(cur_ticks + msg_time m) * tempo < 2 ^ 53"
  shows "time_ms_of (cur_ticks + msg_time m) tempo tpb
           = Inr (((cur_ticks + msg_time m) * tempo) div (tpb * 1000))
       \<and> (\<exists>tempo' new.
             msg_step tpb (cur_ticks, tempo, note_events) m
               = Inr (cur_ticks + msg_time m, tempo', note_events @ new)
             \<and> list_all (\<lambda>e. fst (snd e) = ((cur_ticks + msg_time m) * tempo) div (tpb * 1000)) new)
       \<and> time_ms_of 480 500000 480 = Inr 500
       \<and> track_loop 480 (0, default_tempo, []) [NoteOnMsg 480 60 64]
           = Inr (480, 500000, [(60, 500, ''ON'')])"
proof -
  have t: "time_ms_of (cur_ticks + msg_time m) tempo tpb
           = Inr (((cur_ticks + msg_time m) * tempo) div (tpb * 1000))"
    using assms by (intro time_ms_of_exact)
  have step: "\<exists>tempo' new.
             msg_step tpb (cur_ticks, tempo, note_events) m
               = Inr (cur_ticks + msg_time m, tempo', note_events @ new)
             \<and> list_all (\<lambda>e. fst (snd e) = ((cur_ticks + msg_time m) * tempo) div (tpb * 1000)) new"
  proof (cases m)
    case (SetTempo t tp)
    then have "msg_step tpb (cur_ticks, tempo, note_events) m
                 = Inr (cur_ticks + msg_time m, tp, note_events @ [])"
      using t by (simp add: Let_def)
    then show ?thesis by (intro exI [of _ tp] exI [of _ "[]"]) simp
  next
    case (NoteOnMsg t n v)
    consider "0 < v" | "v = 0" | "v < 0" by linarith
    then show ?thesis
    proof cases
      case 1
      then have "msg_step tpb (cur_ticks, tempo, note_events) m
         = Inr (cur_ticks + msg_time m, tempo,
                note_events @ [(n, ((cur_ticks + msg_time m) * tempo) div (tpb * 1000), ''ON'')])"
        using t NoteOnMsg by (simp add: Let_def)
      then show ?thesis by (intro exI [of _ tempo] exI [of _ "[(n, ((cur_ticks + msg_time m) * tempo) div (tpb * 1000), ''ON'')]"]) simp
    next
      case 2
      then have "msg_step tpb (cur_ticks, tempo, note_events) m
         = Inr (cur_ticks + msg_time m, tempo,
                note_events @ [(n, ((cur_ticks + msg_time m) * tempo) div (tpb * 1000), ''OFF'')])"
        using t NoteOnMsg by (simp add: Let_def)
      then show ?thesis by (intro exI [of _ tempo] exI [of _ "[(n, ((cur_ticks + msg_time m) * tempo) div (tpb * 1000), ''OFF'')]"]) simp
    next
      case 3
      then have "msg_step tpb (cur_ticks, tempo, note_events) m
                 = Inr (cur_ticks + msg_time m, tempo, note_events @ [])"
        using t NoteOnMsg by (simp add: Let_def)
      then show ?thesis by (intro exI [of _ tempo] exI [of _ "[]"]) simp
    qed
  next
    case (NoteOffMsg t n v)
    then have "msg_step tpb (cur_ticks, tempo, note_events) m
         = Inr (cur_ticks + msg_time m, tempo,
                note_events @ [(n, ((cur_ticks + msg_time m) * tempo) div (tpb * 1000), ''OFF'')])"
      using t by (simp add: Let_def)
    then show ?thesis by (intro exI [of _ tempo] exI [of _ "[(n, ((cur_ticks + msg_time m) * tempo) div (tpb * 1000), ''OFF'')]"]) simp
  next
    case (OtherMsg t')
    then have "msg_step tpb (cur_ticks, tempo, note_events) m
                 = Inr (cur_ticks + msg_time m, tempo, note_events @ [])"
      using t by (simp add: Let_def)
    then show ?thesis by (intro exI [of _ tempo] exI [of _ "[]"]) simp
  qed
  have ex: "time_ms_of 480 500000 480 = Inr 500" by (simp add: time_ms_of_exact)
  have tr: "track_loop 480 (0, default_tempo, []) [NoteOnMsg 480 60 64]
           = Inr (480, 500000, [(60, 500, ''ON'')])"
    by (simp add: default_tempo_def ex)
  show ?thesis using t step ex tr by blast
qed

theorem tick_conversion_truncates_witness:
  "time_ms_of (0 + msg_time (NoteOffMsg 960 60 0)) 500000 480 = Inr 1000
   \<and> (\<exists>tempo' new.
         msg_step 480 (0, 500000, []) (NoteOffMsg 960 60 0)
           = Inr (0 + msg_time (NoteOffMsg 960 60 0), tempo', [] @ new)
         \<and> list_all (\<lambda>e. fst (snd e) = 1000) new)"
  using tick_conversion_truncates [of 480 0 "NoteOffMsg 960 60 0" 500000 "[]"]
  by simp

theorem tick_conversion_rounds_up_counterexample:
  "time_ms_of 1080863910568919 500000 480 = Inr 1125899906842624
   \<and> (1080863910568919 * 500000) div (480 * 1000) = (1125899906842623 :: int)
   \<and> time_ms_of 1080863910568919 500000 480
       \<noteq> Inr ((1080863910568919 * 500000) div (480 * 1000))"
  by (simp add: time_ms_big)

text \<open>
  C4. The table of active notes has one start time per pitch, and a second ON
  for a pitch that is already active replaces the stored start time.  For the
  events ON(60) at 0, ON(60) at 100, OFF(60) at 200 the pairer builds exactly one
  note, with start 100 and duration 100; the re-normalisation of this one-note
  list then moves its start to 0.
\<close>

theorem overwrite_policy:
  "fst (pair_step limit (fst (pair_step limit (out, active, idx) (p, t1, ''ON''))) (p, t2, ''ON''))
     = (out, active(p \<mapsto> t2), idx)
   \<and> paired [(60, 0, ''ON''), (60, 100, ''ON''), (60, 200, ''OFF'')] None
     = [\<lparr>index = 0, midiNoteNumber = 60, timeMSec = 100, noteDuration = 100\<rparr>]
   \<and> convert_to_midi_notes [(60, 0, ''ON''), (60, 100, ''ON''), (60, 200, ''OFF'')] None
     = [\<lparr>index = 0, midiNoteNumber = 60, timeMSec = 0, noteDuration = 100\<rparr>]"
  by (simp add: paired_def convert_to_midi_notes_def renormalize_def limit_reached_def)

text \<open>
  C5. A note with start 1000 and duration 200, under \<open>time_scale = 0.5\<close>,
  \<open>time_shift_ms = 50\<close> and \<open>min_duration_ms = 0\<close>, leaves the three built-in
  steps (before the re-normalisation) with start 550 and duration 100: the start
  is scaled to 500 first and the shift of 50 is added unscaled.
\<close>

theorem scale_shift_composition:
  "transform_fields \<lparr>time_shift_ms = 50, time_scale = Fin (1 / 2), min_duration_ms = 0\<rparr>
     \<lparr>index = i, midiNoteNumber = p, timeMSec = 1000, noteDuration = 200\<rparr>
   = Inr \<lparr>index = i, midiNoteNumber = p, timeMSec = 550, noteDuration = 100\<rparr>"
  by (simp add: transform_fields_def scale_note_def shift_note_def floor_note_def
      scale_round_1000_half scale_round_200_half)

text \<open>
  C6. The transposer adds its semitones and clamps the pitch to 0..127, the
  range clamp clamps the pitch to 53..79, and main puts the transposer before the
  clamp in the list of modifiers, which are applied in list order.  The order
  matters: pitch 78 transposed by 5 and then clamped is 79, clamped and then
  transposed it is 83.
\<close>

theorem transpose_then_clamp:
  "midiNoteNumber (run_mods [make_transposer N] n) = max 0 (min 127 (midiNoteNumber n + N))
   \<and> midiNoteNumber (run_mods [clamp_mod] n) = max 53 (min 79 (midiNoteNumber n))
   \<and> extra_mods N True = (if N \<noteq> 0 then [make_transposer N, clamp_mod] else [clamp_mod])
   \<and> midiNoteNumber (run_mods (extra_mods 5 True) (note_of_pitch 78)) = 79
   \<and> midiNoteNumber (run_mods [clamp_mod, make_transposer 5] (note_of_pitch 78)) = 83
   \<and> (\<exists>p. run_mods [make_transposer 5, clamp_mod] (note_of_pitch p)
            \<noteq> run_mods [clamp_mod, make_transposer 5] (note_of_pitch p))"
proof -
  have order: "midiNoteNumber (run_mods [make_transposer 5, clamp_mod] (note_of_pitch 78)) = 79"
    by (simp add: run_mods_def make_transposer_def clamp_mod_def note_of_pitch_def
        NOTE_MIN_def NOTE_MAX_def)
  have swapped: "midiNoteNumber (run_mods [clamp_mod, make_transposer 5] (note_of_pitch 78)) = 83"
    by (simp add: run_mods_def make_transposer_def clamp_mod_def note_of_pitch_def
        NOTE_MIN_def NOTE_MAX_def)
  have differ: "run_mods [make_transposer 5, clamp_mod] (note_of_pitch 78)
                  \<noteq> run_mods [clamp_mod, make_transposer 5] (note_of_pitch 78)"
    using order swapped by auto
  have transposer: "midiNoteNumber (run_mods [make_transposer N] n)
                      = max 0 (min 127 (midiNoteNumber n + N))"
    by (simp add: run_mods_def make_transposer_def)
  have clamp: "midiNoteNumber (run_mods [clamp_mod] n) = max 53 (min 79 (midiNoteNumber n))"
    by (simp add: run_mods_def clamp_mod_def NOTE_MIN_def NOTE_MAX_def)
  have built: "extra_mods N True = (if N \<noteq> 0 then [make_transposer N, clamp_mod] else [clamp_mod])"
    by (simp add: extra_mods_def)
  have built5: "extra_mods 5 True = [make_transposer 5, clamp_mod]"
    by (simp add: extra_mods_def)
  show ?thesis
    using transposer clamp built order swapped differ unfolding built5 by blast
qed

text \<open>
  C7. Every non-empty list that \<open>convert_to_midi_notes\<close> returns has least start
  time 0, and so has every non-empty list that \<open>apply_transforms\<close> returns when
  its modifiers are well behaved.  When nothing was paired, and when the input
  of the pipeline is empty, the re-normalisation is skipped and the result is
  the empty list, with no error.
\<close>

theorem outputs_start_at_zero:
  assumes "list_all well_behaved mods" and "list_all (\<lambda>n. n < length h) notes"
    and "apply_transforms h notes opts mods = Inr (out, h')"
  shows "(convert_to_midi_notes events limit \<noteq> []
            \<longrightarrow> min_list (map timeMSec (convert_to_midi_notes events limit)) = 0)
       \<and> (paired events limit = [] \<longrightarrow> convert_to_midi_notes events limit = [])
       \<and> (out \<noteq> [] \<longrightarrow> min_list (map timeMSec (deref h' out)) = 0)
       \<and> apply_transforms h [] opts mods = Inr ([], h)
       \<and> convert_to_midi_notes [] limit = []"
proof -
  have a: "convert_to_midi_notes events limit \<noteq> []
            \<longrightarrow> min_list (map timeMSec (convert_to_midi_notes events limit)) = 0"
  proof
    assume "convert_to_midi_notes events limit \<noteq> []"
    then have "paired events limit \<noteq> []"
      by (auto simp: convert_to_midi_notes_def renormalize_def)
    then show "min_list (map timeMSec (convert_to_midi_notes events limit)) = 0"
      unfolding convert_to_midi_notes_def by (rule renormalize_min)
  qed
  have b: "paired events limit = [] \<longrightarrow> convert_to_midi_notes events limit = []"
    by (simp add: convert_to_midi_notes_def renormalize_def)
  have c: "out \<noteq> [] \<longrightarrow> min_list (map timeMSec (deref h' out)) = 0"
    using apply_transforms_frame(6) [OF assms] .
  have d: "apply_transforms h [] opts mods = Inr ([], h)"
    by (simp add: apply_transforms_def renormalize_refs_def)
  have e: "convert_to_midi_notes [] limit = []"
    by (simp add: convert_to_midi_notes_def paired_def renormalize_def)
  show ?thesis using a b c d e by blast
qed

theorem outputs_start_at_zero_witness:
  "apply_transforms [\<lparr>index = 0, midiNoteNumber = 60, timeMSec = 7, noteDuration = 5\<rparr>] [0] \<lparr>time_shift_ms = - 20, time_scale = Fin 1, min_duration_ms = 0\<rparr> (extra_mods 5 True) = Inr ([1], [\<lparr>index = 0, midiNoteNumber = 60, timeMSec = 7, noteDuration = 5\<rparr>, \<lparr>index = 0, midiNoteNumber = 65, timeMSec = 0, noteDuration = 5\<rparr>])
   \<and> min_list (map timeMSec (deref [\<lparr>index = 0, midiNoteNumber = 60, timeMSec = 7, noteDuration = 5\<rparr>, \<lparr>index = 0, midiNoteNumber = 65, timeMSec = 0, noteDuration = 5\<rparr>] [1])) = 0
   \<and> min_list (map timeMSec (convert_to_midi_notes
         [(60, 30, ''ON''), (60, 45, ''OFF'')] None)) = 0"
proof -
  have run: "apply_transforms [\<lparr>index = 0, midiNoteNumber = 60, timeMSec = 7, noteDuration = 5\<rparr>] [0] \<lparr>time_shift_ms = - 20, time_scale = Fin 1, min_duration_ms = 0\<rparr> (extra_mods 5 True) = Inr ([1], [\<lparr>index = 0, midiNoteNumber = 60, timeMSec = 7, noteDuration = 5\<rparr>, \<lparr>index = 0, midiNoteNumber = 65, timeMSec = 0, noteDuration = 5\<rparr>])"
    by (simp add: apply_transforms_def new_note_def transform_fields_def scale_note_def
        shift_note_def floor_note_def renormalize_refs_def extra_mods_def make_transposer_def
        clamp_mod_def NOTE_MIN_def NOTE_MAX_def)
  have conv: "convert_to_midi_notes [(60, 30, ''ON''), (60, 45, ''OFF'')] None
      = [\<lparr>index = 0, midiNoteNumber = 60, timeMSec = 0, noteDuration = 15\<rparr>]"
    by (simp add: convert_to_midi_notes_def paired_def renormalize_def limit_reached_def)
  have alloc: "list_all (\<lambda>n. n < length [\<lparr>index = 0, midiNoteNumber = 60, timeMSec = 7, noteDuration = 5\<rparr>]) [0]"
    by simp
  show ?thesis
    using outputs_start_at_zero [OF well_behaved_extra_mods alloc run,
        of "[(60, 30, ''ON''), (60, 45, ''OFF'')]" None] run conv
    by simp
qed

theorem alias_modifier_min_start_counterexample:
  "apply_transforms
     [\<lparr>index = 0, midiNoteNumber = 60, timeMSec = 7, noteDuration = 5\<rparr>,
      \<lparr>index = 1, midiNoteNumber = 62, timeMSec = 9, noteDuration = 5\<rparr>] [0, 1]
     \<lparr>time_shift_ms = 0, time_scale = Fin 1, min_duration_ms = 0\<rparr> [return_first]
   = Inr ([0, 0], [\<lparr>index = 0, midiNoteNumber = 60, timeMSec = - 7, noteDuration = 5\<rparr>,
                \<lparr>index = 1, midiNoteNumber = 62, timeMSec = 9, noteDuration = 5\<rparr>,
                \<lparr>index = 0, midiNoteNumber = 60, timeMSec = 7, noteDuration = 5\<rparr>,
                \<lparr>index = 1, midiNoteNumber = 62, timeMSec = 9, noteDuration = 5\<rparr>])
   \<and> min_list (map timeMSec (deref
        [\<lparr>index = 0, midiNoteNumber = 60, timeMSec = - 7, noteDuration = 5\<rparr>,
         \<lparr>index = 1, midiNoteNumber = 62, timeMSec = 9, noteDuration = 5\<rparr>,
         \<lparr>index = 0, midiNoteNumber = 60, timeMSec = 7, noteDuration = 5\<rparr>,
         \<lparr>index = 1, midiNoteNumber = 62, timeMSec = 9, noteDuration = 5\<rparr>] [0, 0])) = - 7"
  by (simp add: apply_transforms_def new_note_def transform_fields_def scale_note_def
      shift_note_def floor_note_def return_first_def renormalize_refs_def deref_def)

text \<open>
  C8. An OFF event for a pitch with no active start is dropped: the loop body
  leaves \<open>out\<close>, \<open>active\<close> and \<open>idx\<close> as they are and does not stop the loop,
  nothing is raised, and the events after it are processed as if it had not
  been there, so that the result of \<open>convert_to_midi_notes\<close> is the same with
  and without it.
\<close>

theorem unmatched_off_dropped:
  assumes "pair_loop None ([], Map.empty, 0) xs = (out, active, idx)" and "active p = None"
  shows "pair_step limit (out, active, idx) (p, t, ''OFF'') = ((out, active, idx), False)
       \<and> pair_loop limit ([], Map.empty, 0) (xs @ (p, t, ''OFF'') # ys)
           = pair_loop limit ([], Map.empty, 0) (xs @ ys)
       \<and> convert_to_midi_notes (xs @ (p, t, ''OFF'') # ys) limit
           = convert_to_midi_notes (xs @ ys) limit"
proof -
  have loop: "pair_loop limit ([], Map.empty, 0) (xs @ (p, t, ''OFF'') # ys)
           = pair_loop limit ([], Map.empty, 0) (xs @ ys)"
    using assms by (rule pair_loop_drop_unmatched)
  have conv: "convert_to_midi_notes (xs @ (p, t, ''OFF'') # ys) limit
           = convert_to_midi_notes (xs @ ys) limit"
    unfolding convert_to_midi_notes_def paired_def by (simp only: loop)
  show ?thesis
    using pair_step_unmatched [of active p limit out idx t] assms(2) loop conv by blast
qed

theorem unmatched_off_dropped_witness:
  "convert_to_midi_notes ([(60, 0, ''ON''), (60, 10, ''OFF'')] @ (60, 20, ''OFF'')
       # [(61, 30, ''ON''), (61, 45, ''OFF'')]) None
     = convert_to_midi_notes ([(60, 0, ''ON''), (60, 10, ''OFF'')]
         @ [(61, 30, ''ON''), (61, 45, ''OFF'')]) None"
proof -
  have run: "pair_loop None ([], Map.empty, 0) [(60, 0, ''ON''), (60, 10, ''OFF'')]
     = ([\<lparr>index = 0, midiNoteNumber = 60, timeMSec = 0, noteDuration = 10\<rparr>],
        (Map.empty(60 \<mapsto> 0))(60 := None), 1)"
    by (simp add: limit_reached_def)
  have inactive: "((Map.empty(60 \<mapsto> 0))(60 := None)) (60 :: int) = (None :: int option)"
    by simp
  show ?thesis
    using unmatched_off_dropped [OF run inactive, of None 20 "[(61, 30, ''ON''), (61, 45, ''OFF'')]"]
    by blast
qed

text \<open>
  C9. With well-behaved modifiers, which include the transposer and the clamp
  although they update the note they are given, \<open>apply_transforms\<close> leaves every
  note that existed before the call as it was, the input notes among them, and
  returns a list of as many newly created, pairwise different notes as the
  input has.
\<close>

theorem input_notes_unchanged:
  assumes "list_all well_behaved mods" and "list_all (\<lambda>n. n < length h) notes"
    and "apply_transforms h notes opts mods = Inr (out, h')"
  shows "deref h' notes = deref h notes
       \<and> take (length h) h' = h
       \<and> list_all (\<lambda>e. length h \<le> e \<and> e < length h') out
       \<and> distinct out
       \<and> length out = length notes
       \<and> list_all well_behaved (extra_mods N c)"
proof -
  note fr = apply_transforms_frame [OF assms]
  have old: "\<forall>i<length h. h' ! i = h ! i" using fr(5) .
  have a: "deref h' notes = deref h notes"
    using assms(2) old by (simp add: deref_def list_all_iff)
  have b: "take (length h) h' = h"
    using old fr(2) by (intro nth_equalityI) simp_all
  show ?thesis
    using a b fr(3) fr(4) fr(1) well_behaved_extra_mods by blast
qed

theorem input_notes_unchanged_witness:
  "apply_transforms
     [\<lparr>index = 0, midiNoteNumber = 78, timeMSec = 1000, noteDuration = 200\<rparr>] [0]
     \<lparr>time_shift_ms = 50, time_scale = Fin (1 / 2), min_duration_ms = 0\<rparr> (extra_mods 5 True)
   = Inr ([1], [\<lparr>index = 0, midiNoteNumber = 78, timeMSec = 1000, noteDuration = 200\<rparr>,
                \<lparr>index = 0, midiNoteNumber = 79, timeMSec = 0, noteDuration = 100\<rparr>])
   \<and> deref [\<lparr>index = 0, midiNoteNumber = 78, timeMSec = 1000, noteDuration = 200\<rparr>,
            \<lparr>index = 0, midiNoteNumber = 79, timeMSec = 0, noteDuration = 100\<rparr>] [0]
     = deref [\<lparr>index = 0, midiNoteNumber = 78, timeMSec = 1000, noteDuration = 200\<rparr>] [0]"
proof -
  have run: "apply_transforms
     [\<lparr>index = 0, midiNoteNumber = 78, timeMSec = 1000, noteDuration = 200\<rparr>] [0]
     \<lparr>time_shift_ms = 50, time_scale = Fin (1 / 2), min_duration_ms = 0\<rparr> (extra_mods 5 True)
   = Inr ([1], [\<lparr>index = 0, midiNoteNumber = 78, timeMSec = 1000, noteDuration = 200\<rparr>,
                \<lparr>index = 0, midiNoteNumber = 79, timeMSec = 0, noteDuration = 100\<rparr>])"
    by (simp add: apply_transforms_def new_note_def transform_fields_def scale_note_def
        shift_note_def floor_note_def renormalize_refs_def extra_mods_def make_transposer_def
        clamp_mod_def NOTE_MIN_def NOTE_MAX_def scale_round_1000_half scale_round_200_half)
  have alloc: "list_all (\<lambda>n. n < length
     [\<lparr>index = 0, midiNoteNumber = 78, timeMSec = 1000, noteDuration = 200\<rparr>]) [0]"
    by simp
  show ?thesis
    using input_notes_unchanged [OF well_behaved_extra_mods alloc run] run by blast
qed

theorem alias_modifier_counterexample:
  "apply_transforms
     [\<lparr>index = 0, midiNoteNumber = 60, timeMSec = 7, noteDuration = 5\<rparr>] [0]
     \<lparr>time_shift_ms = 0, time_scale = Fin 1, min_duration_ms = 0\<rparr> [return_first]
   = Inr ([0], [\<lparr>index = 0, midiNoteNumber = 60, timeMSec = 0, noteDuration = 5\<rparr>,
                \<lparr>index = 0, midiNoteNumber = 60, timeMSec = 7, noteDuration = 5\<rparr>])"
  by (simp add: apply_transforms_def new_note_def transform_fields_def scale_note_def
      shift_note_def floor_note_def return_first_def renormalize_refs_def)

text \<open>
  C10. On a list of events sorted by time, every note that
  \<open>convert_to_midi_notes\<close> returns has a non-negative duration and a
  non-negative start time, and the indices of the notes are 0, 1, 2, ... in
  list order.  The list that \<open>transcribe_midi\<close> returns is sorted by time.
\<close>

theorem sorted_events_give_wellformed_notes:
  assumes "sorted (map (\<lambda>e. fst (snd e)) events)"
  shows "list_all (\<lambda>n. 0 \<le> noteDuration n \<and> 0 \<le> timeMSec n) (convert_to_midi_notes events limit)
       \<and> map index (convert_to_midi_notes events limit)
           = map int [0..<length (convert_to_midi_notes events limit)]
       \<and> sorted (map (\<lambda>e. fst (snd e)) (transcribe_midi decoded))"
proof -
  have srt: "sorted (map (\<lambda>e. fst (snd e)) (transcribe_midi decoded))"
    by (simp add: transcribe_midi_def sorted_sort_key split: sum.splits)
  have dur: "list_all (\<lambda>d. 0 \<le> d) (map noteDuration (convert_to_midi_notes events limit))"
    using paired_inv(1) [OF assms, of limit]
    by (simp add: convert_to_midi_notes_def renormalize_props(3) list_all_iff)
  have tm: "list_all (\<lambda>n. 0 \<le> timeMSec n) (convert_to_midi_notes events limit)"
    using renormalize_nonneg by (auto simp: convert_to_midi_notes_def list_all_iff)
  have idx: "map index (convert_to_midi_notes events limit)
           = map int [0..<length (convert_to_midi_notes events limit)]"
    using paired_inv(2) [OF assms, of limit]
    by (simp add: convert_to_midi_notes_def renormalize_props(1,2))
  show ?thesis using dur tm idx srt by (auto simp: list_all_iff)
qed

theorem sorted_events_give_wellformed_notes_witness:
  "convert_to_midi_notes [(60, 30, ''ON''), (62, 35, ''ON''), (60, 45, ''OFF''), (62, 50, ''OFF'')] None
     = [\<lparr>index = 0, midiNoteNumber = 60, timeMSec = 0, noteDuration = 15\<rparr>,
        \<lparr>index = 1, midiNoteNumber = 62, timeMSec = 5, noteDuration = 15\<rparr>]
   \<and> list_all (\<lambda>n. 0 \<le> noteDuration n \<and> 0 \<le> timeMSec n)
        (convert_to_midi_notes [(60, 30, ''ON''), (62, 35, ''ON''), (60, 45, ''OFF''), (62, 50, ''OFF'')] None)
   \<and> map index (convert_to_midi_notes [(60, 30, ''ON''), (62, 35, ''ON''), (60, 45, ''OFF''), (62, 50, ''OFF'')] None)
       = map int [0..<length (convert_to_midi_notes [(60, 30, ''ON''), (62, 35, ''ON''), (60, 45, ''OFF''), (62, 50, ''OFF'')] None)]"
proof -
  have srt: "sorted (map (\<lambda>e. fst (snd e))
      [(60 :: int, 30 :: int, ''ON''), (62, 35, ''ON''), (60, 45, ''OFF''), (62, 50, ''OFF'')])"
    by simp
  have conv: "convert_to_midi_notes [(60, 30, ''ON''), (62, 35, ''ON''), (60, 45, ''OFF''), (62, 50, ''OFF'')] None
     = [\<lparr>index = 0, midiNoteNumber = 60, timeMSec = 0, noteDuration = 15\<rparr>,
        \<lparr>index = 1, midiNoteNumber = 62, timeMSec = 5, noteDuration = 15\<rparr>]"
    by (simp add: convert_to_midi_notes_def paired_def renormalize_def limit_reached_def)
  show ?thesis
    using sorted_events_give_wellformed_notes [OF srt, of None] conv by blast
qed

end
